theory Spec2Isabelle
  imports Main "HOL-Library.Word"
begin

section \<open>The multi-threaded file downloader (downloader.py)\<close>

text \<open>
  The program discovers the size of a remote file with a HEAD request, splits it into
  \<open>num_threads\<close> byte ranges, fetches every range in its own thread into a scratch file
  \<open>save_path.part<i>\<close>, and concatenates the scratch files into \<open>save_path\<close>.

  Python integers are \<open>int\<close>. Exceptions are values of \<open>error\<close>; a function that may
  raise returns its result together with the world as the raise left it. The world is the
  file system (a map from paths to contents, and the paths at which a file can be opened for
  writing), the list of HTTP requests sent so far, and the byte counters of the progress
  bars. The server and the thread schedule are not part of the
  program: the server is a parameter giving the response to every request, the schedule is
  the list of thread indices in the order in which the futures complete.
\<close>

subsection \<open>Data\<close>

type_synonym byte = "8 word"

datatype error =
    ValueError
  | KeyError
  | ZeroDivisionError
  | IndexError
  | FileNotFoundError
  | OSError
  | RequestException

datatype request = Head string | Get string int int

text \<open>
  What \<open>int(response.headers['Content-Length'])\<close> meets: no such header (the subscript
  raises KeyError), a value that \<open>int\<close> rejects (ValueError), or an integer.
\<close>

datatype content_length = Absent | Malformed | Length int

text \<open>
  A streamed GET response: the status code, the blocks that \<open>iter_content\<close> yields, and
  the exception the iterator raises after them, if the transfer breaks.
\<close>

record response =
  status :: nat
  blocks :: "byte list list"
  stream_error :: "error option"

record server =
  http_head :: "string \<Rightarrow> error + content_length"
  http_get :: "string \<Rightarrow> int \<Rightarrow> int \<Rightarrow> error + response"

text \<open>
  \<open>writable\<close> holds of the paths at which \<open>open(path, 'wb')\<close> succeeds: the directory
  exists and may be written to. At any other path it raises an OSError (FileNotFoundError
  for a missing directory or an empty name, PermissionError). A write to a file that has
  been opened is taken to succeed.
\<close>

record world =
  files :: "string \<rightharpoonup> byte list"
  writable :: "string \<Rightarrow> bool"
  sent :: "request list"
  bars :: "nat list"

subsection \<open>Scratch file names\<close>

text \<open>Python's \<open>str(i)\<close> for an index \<open>i \<ge> 0\<close>: decimal digits, no leading zero.\<close>

definition digit_char :: "nat \<Rightarrow> char" where
  "digit_char d = char_of (48 + d)"

fun str_nat :: "nat \<Rightarrow> string" where
  "str_nat n = (if n < 10 then [digit_char n] else str_nat (n div 10) @ [digit_char (n mod 10)])"

declare str_nat.simps [simp del]

text \<open>Line 39: \<open>temp_file_path = f"{save_path}.part{thread_index}"\<close>.\<close>

definition temp_file_path :: "string \<Rightarrow> nat \<Rightarrow> string" where
  "temp_file_path save_path thread_index = save_path @ ''.part'' @ str_nat thread_index"

subsection \<open>download_chunk\<close>

text \<open>\<open>f.write(chunk)\<close> on the file opened at \<open>path\<close>: the bytes are appended.\<close>

definition append_file :: "string \<Rightarrow> byte list \<Rightarrow> (string \<rightharpoonup> byte list) \<Rightarrow> (string \<rightharpoonup> byte list)" where
  "append_file path bs fs = fs(path \<mapsto> (case fs path of None \<Rightarrow> [] | Some old \<Rightarrow> old) @ bs)"

text \<open>
  Lines 41-44, the loop over \<open>response.iter_content\<close>: an empty block is skipped, any other
  block is written and then reported to the thread's progress bar. The subscript
  \<open>thread_progress_bars[thread_index]\<close> raises IndexError beyond the list, after the write.
\<close>

fun write_blocks :: "string \<Rightarrow> nat \<Rightarrow> byte list list \<Rightarrow> world \<Rightarrow> error option \<times> world" where
  "write_blocks path thread_index [] w = (None, w)"
| "write_blocks path thread_index (chunk # rest) w =
     (if chunk = [] then write_blocks path thread_index rest w
      else
        let w1 = w\<lparr>files := append_file path chunk (files w)\<rparr> in
        if thread_index < length (bars w1)
        then write_blocks path thread_index rest
               (w1\<lparr>bars := (bars w1)[thread_index := bars w1 ! thread_index + length chunk]\<rparr>)
        else (Some IndexError, w1))"

text \<open>
  Lines 35-46. The request carries the header \<open>Range: bytes=<start_byte>-<end_byte>\<close>; it
  is recorded as \<open>Get url start_byte end_byte\<close>. When \<open>requests.get\<close> raises, no file has
  been opened. Otherwise the scratch file is opened with mode \<open>'wb'\<close>, which raises when
  the file cannot be created, and else leaves it empty; then it is filled. The response
  status and the number of bytes received are never looked at.
\<close>

definition download_chunk ::
  "server \<Rightarrow> string \<Rightarrow> string \<Rightarrow> int \<Rightarrow> int \<Rightarrow> nat \<Rightarrow> world \<Rightarrow> (error + string) \<times> world" where
  "download_chunk srv url save_path start_byte end_byte thread_index w =
     (let w1 = w\<lparr>sent := sent w @ [Get url start_byte end_byte]\<rparr> in
      case http_get srv url start_byte end_byte of
        Inl e \<Rightarrow> (Inl e, w1)
      | Inr resp \<Rightarrow>
          let path = temp_file_path save_path thread_index in
          if \<not> writable w1 path then (Inl OSError, w1)
          else
            let w2 = w1\<lparr>files := (files w1)(path \<mapsto> [])\<rparr>
            in (case write_blocks path thread_index (blocks resp) w2 of
                  (Some e, w3) \<Rightarrow> (Inl e, w3)
                | (None, w3) \<Rightarrow>
                    (case stream_error resp of
                       Some e \<Rightarrow> (Inl e, w3)
                     | None \<Rightarrow> (Inr path, w3))))"

subsection \<open>merge_files\<close>

text \<open>
  Lines 58-61: every scratch file is read (\<open>open(temp_file, 'rb')\<close> raises
  FileNotFoundError when it does not exist), appended to the final file, and removed. What
  is written to the final file is taken to be in the file at once; the scratch files that
  the download passes all differ from \<open>save_path\<close>.
\<close>

fun merge_loop :: "string list \<Rightarrow> string \<Rightarrow> world \<Rightarrow> (error + unit) \<times> world" where
  "merge_loop [] save_path w = (Inr (), w)"
| "merge_loop (temp_file # rest) save_path w =
     (case files w temp_file of
        None \<Rightarrow> (Inl FileNotFoundError, w)
      | Some content \<Rightarrow>
          merge_loop rest save_path
            (w\<lparr>files := (append_file save_path content (files w))(temp_file := None)\<rparr>))"

text \<open>
  Line 57 opens the final file with mode \<open>'wb'\<close>: it is created, or truncated; where it
  cannot be, \<open>open\<close> raises before any scratch file is read.
\<close>

definition merge_files :: "string list \<Rightarrow> string \<Rightarrow> world \<Rightarrow> (error + unit) \<times> world" where
  "merge_files temp_files save_path w =
     (if \<not> writable w save_path then (Inl OSError, w)
      else merge_loop temp_files save_path (w\<lparr>files := (files w)(save_path \<mapsto> [])\<rparr>))"

subsection \<open>download_file_in_chunks\<close>

text \<open>Line 84, the list comprehension over \<open>range(num_threads)\<close>.\<close>

definition chunk_ranges :: "int \<Rightarrow> int \<Rightarrow> int \<Rightarrow> (int \<times> int) list" where
  "chunk_ranges total_size chunk_size num_threads =
     map (\<lambda>i. (int i * chunk_size, min ((int i + 1) * chunk_size - 1) (total_size - 1)))
       [0..<nat num_threads]"

text \<open>
  Lines 83-84. \<open>//\<close> is floor division, as \<open>div\<close> on \<open>int\<close> is, and raises
  ZeroDivisionError on a zero divisor.
\<close>

definition plan :: "int \<Rightarrow> int \<Rightarrow> error + (int \<times> int) list" where
  "plan total_size num_threads =
     (if num_threads = 0 then Inl ZeroDivisionError
      else Inr (chunk_ranges total_size (total_size div num_threads) num_threads))"

text \<open>
  The futures in the order in which they complete: \<open>order\<close> lists thread indices, a
  permutation of \<open>[0..<num_threads]\<close> in every real run.
\<close>

definition as_completed :: "nat list \<Rightarrow> 'a list \<Rightarrow> 'a list" where
  "as_completed order futures = map (\<lambda>k. futures ! k) (filter (\<lambda>k. k < length futures) order)"

text \<open>
  The thread pool. Every submitted task runs to the end, also when another one has raised:
  leaving the \<open>with\<close> block waits for all of them. The tasks write to different files and
  different progress bars, so each one is run as a whole, in the order of completion.
\<close>

fun run_tasks ::
  "server \<Rightarrow> string \<Rightarrow> string \<Rightarrow> (nat \<times> int \<times> int) list \<Rightarrow> world \<Rightarrow> (error + string) list \<times> world" where
  "run_tasks srv url save_path [] w = ([], w)"
| "run_tasks srv url save_path ((i, start_byte, end_byte) # rest) w =
     (let (r, w1) = download_chunk srv url save_path start_byte end_byte i w;
          (rs, w2) = run_tasks srv url save_path rest w1
      in (r # rs, w2))"

text \<open>
  Lines 100-101: \<open>temp_files.append(future.result())\<close> in completion order;
  \<open>future.result()\<close> raises what the task raised.
\<close>

fun collect :: "(error + string) list \<Rightarrow> error + string list" where
  "collect [] = Inr []"
| "collect (Inl e # rest) = Inl e"
| "collect (Inr temp_file # rest) =
     (case collect rest of Inl e \<Rightarrow> Inl e | Inr temp_files \<Rightarrow> Inr (temp_file # temp_files))"

definition download_file_in_chunks ::
  "server \<Rightarrow> nat list \<Rightarrow> string \<Rightarrow> string \<Rightarrow> int \<Rightarrow> world \<Rightarrow> (error + unit) \<times> world" where
  "download_file_in_chunks srv order url save_path num_threads w =
     (if num_threads \<le> 0 then (Inl ValueError, w)
      else
        let w1 = w\<lparr>sent := sent w @ [Head url]\<rparr> in
        case http_head srv url of
          Inl e \<Rightarrow> (Inl e, w1)
        | Inr Absent \<Rightarrow> (Inl KeyError, w1)
        | Inr Malformed \<Rightarrow> (Inl ValueError, w1)
        | Inr (Length total_size) \<Rightarrow>
            (case plan total_size num_threads of
               Inl e \<Rightarrow> (Inl e, w1)
             | Inr ranges \<Rightarrow>
                 let w2 = w1\<lparr>bars := map (\<lambda>_. 0) ranges\<rparr>;
                     futures = List.enumerate 0 ranges;
                     (results, w3) = run_tasks srv url save_path (as_completed order futures) w2
                 in (case collect results of
                       Inl e \<Rightarrow> (Inl e, w3)
                     | Inr temp_files \<Rightarrow> merge_files temp_files save_path w3)))"

subsection \<open>Notions used to state the properties\<close>

text \<open>The bytes of the file that a list of inclusive ranges asks for.\<close>

definition covered :: "(int \<times> int) list \<Rightarrow> int set" where
  "covered rs = (\<Union>(s, e) \<in> set rs. {s..e})"

text \<open>
  The world of a chunk fetch once its request is sent and its scratch file is opened
  (lines 36 and 40).
\<close>

definition opened :: "string \<Rightarrow> string \<Rightarrow> int \<Rightarrow> int \<Rightarrow> nat \<Rightarrow> world \<Rightarrow> world" where
  "opened url sp s e i w =
     w\<lparr>sent := sent w @ [Get url s e], files := (files w)(temp_file_path sp i \<mapsto> [])\<rparr>"

text \<open>
  What the fetch of a task \<open>(i, start_byte, end_byte)\<close> returns or raises, read off the
  server's response and the paths \<open>wr\<close> that can be opened for writing: it fails when
  the request raises, when the scratch file cannot be opened, and when the body stream
  raises.
\<close>

definition chunk_result ::
  "server \<Rightarrow> (string \<Rightarrow> bool) \<Rightarrow> string \<Rightarrow> string \<Rightarrow> nat \<times> int \<times> int \<Rightarrow> error + string" where
  "chunk_result srv wr url save_path task =
     (case task of (i, start_byte, end_byte) \<Rightarrow>
        (case http_get srv url start_byte end_byte of
           Inl err \<Rightarrow> Inl err
         | Inr resp \<Rightarrow>
             if \<not> wr (temp_file_path save_path i) then Inl OSError
             else
               (case stream_error resp of
                  Some err \<Rightarrow> Inl err
                | None \<Rightarrow> Inr (temp_file_path save_path i))))"

text \<open>
  The bytes the fetch of a task leaves in its scratch file: those it received, when its
  request got a response and the scratch file could be opened. Otherwise the fetch opens
  no file.
\<close>

definition chunk_body ::
  "server \<Rightarrow> (string \<Rightarrow> bool) \<Rightarrow> string \<Rightarrow> string \<Rightarrow> nat \<times> int \<times> int \<Rightarrow> byte list option" where
  "chunk_body srv wr url save_path task =
     (case task of (i, start_byte, end_byte) \<Rightarrow>
        (case http_get srv url start_byte end_byte of
           Inl err \<Rightarrow> None
         | Inr resp \<Rightarrow>
             if wr (temp_file_path save_path i) then Some (concat (blocks resp)) else None))"

text \<open>
  The world when the tasks are submitted (the HEAD request sent, one progress bar per
  range), and the tasks in the order in which they complete.
\<close>

definition start_world :: "string \<Rightarrow> int \<Rightarrow> int \<Rightarrow> world \<Rightarrow> world" where
  "start_world url total_size n w =
     w\<lparr>sent := sent w @ [Head url],
       bars := map (\<lambda>_. 0) (chunk_ranges total_size (total_size div n) n)\<rparr>"

definition tasks_of :: "nat list \<Rightarrow> int \<Rightarrow> int \<Rightarrow> (nat \<times> int \<times> int) list" where
  "tasks_of order total_size n =
     as_completed order (List.enumerate 0 (chunk_ranges total_size (total_size div n) n))"

subsection \<open>Example worlds and servers\<close>

text \<open>
  A world with no file, no request sent and no progress bar, in which a file can be opened
  for writing at every path; and one in which no file can be opened for writing.
\<close>

definition empty_world :: world where
  "empty_world = \<lparr>files = Map.empty, writable = (\<lambda>_. True), sent = [], bars = []\<rparr>"

definition read_only_world :: world where
  "read_only_world = \<lparr>files = Map.empty, writable = (\<lambda>_. False), sent = [], bars = [0]\<rparr>"

text \<open>A server whose HEAD response has no Content-Length header.\<close>

definition no_length_server :: server where
  "no_length_server = \<lparr>http_head = (\<lambda>_. Inr Absent), http_get = (\<lambda>_ _ _. Inl RequestException)\<rparr>"

text \<open>
  A server that serves the bytes \<open>data\<close>: HEAD reports their number, a GET for the
  range \<open>start..end\<close> answers 206 with exactly these bytes, in one block.
\<close>

definition exact_server :: "byte list \<Rightarrow> server" where
  "exact_server data =
     \<lparr>http_head = (\<lambda>_. Inr (Length (int (length data)))),
      http_get = (\<lambda>_ start_byte end_byte. Inr
        \<lparr>status = 206,
         blocks = [take (nat (end_byte + 1 - start_byte)) (drop (nat start_byte) data)],
         stream_error = None\<rparr>)\<rparr>"

text \<open>
  A server that answers every GET with status 404 and a body of three bytes, in the
  blocks [1, 2], [] and [3].
\<close>

definition not_found_server :: server where
  "not_found_server =
     \<lparr>http_head = (\<lambda>_. Inr (Length 10)),
      http_get = (\<lambda>_ _ _. Inr \<lparr>status = 404, blocks = [[1, 2], [], [3]], stream_error = None\<rparr>)\<rparr>"

text \<open>
  A server for a file of five bytes, whose GET for the range starting at byte 2 raises;
  every other range gets one byte, the number of its first byte.
\<close>

definition third_chunk_fails_server :: server where
  "third_chunk_fails_server =
     \<lparr>http_head = (\<lambda>_. Inr (Length 5)),
      http_get = (\<lambda>_ start_byte end_byte.
        if start_byte = 2 then Inl RequestException
        else Inr \<lparr>status = 206, blocks = [[word_of_int start_byte]], stream_error = None\<rparr>)\<rparr>"

section \<open>Properties\<close>

subsection \<open>Facts about scratch file names\<close>

lemma digit_char_inj: "a < 10 \<Longrightarrow> b < 10 \<Longrightarrow> digit_char a = digit_char b \<Longrightarrow> a = b"
proof -
  assume a: "a < 10" and b: "b < 10" and eq: "digit_char a = digit_char b"
  from eq have "of_char (digit_char a) = (of_char (digit_char b) :: nat)"
    by simp
  with a b show "a = b"
    by (simp add: digit_char_def)
qed

lemma str_nat_nonempty: "str_nat n \<noteq> []"
  by (subst str_nat.simps) simp

lemma str_nat_inj: "str_nat n = str_nat m \<Longrightarrow> n = m"
proof (induction n arbitrary: m rule: str_nat.induct)
  case (1 n)
  show ?case
  proof (cases "n < 10")
    case small: True
    show ?thesis
    proof (cases "m < 10")
      case True
      with small "1.prems" show ?thesis
        by (simp add: str_nat.simps [of n] str_nat.simps [of m] digit_char_inj)
    next
      case False
      with small "1.prems" str_nat_nonempty [of "m div 10"] show ?thesis
        by (simp add: str_nat.simps [of n] str_nat.simps [of m])
    qed
  next
    case big: False
    show ?thesis
    proof (cases "m < 10")
      case True
      with big "1.prems" str_nat_nonempty [of "n div 10"] show ?thesis
        by (simp add: str_nat.simps [of n] str_nat.simps [of m])
    next
      case False
      with big "1.prems" have pre: "str_nat (n div 10) = str_nat (m div 10)"
        and dig: "digit_char (n mod 10) = digit_char (m mod 10)"
        by (simp_all add: str_nat.simps [of n] str_nat.simps [of m])
      from "1.IH" [OF big pre] have "n div 10 = m div 10" .
      moreover from dig have "n mod 10 = m mod 10"
        by (simp add: digit_char_inj)
      ultimately show ?thesis
        by (metis div_mult_mod_eq)
    qed
  qed
qed

lemma temp_file_path_inj: "temp_file_path p i = temp_file_path p j \<longleftrightarrow> i = j"
  by (auto simp: temp_file_path_def dest: str_nat_inj)

lemma temp_file_path_neq: "temp_file_path p i \<noteq> p"
  by (simp add: temp_file_path_def)

subsection \<open>Facts about the chunk fetch\<close>

lemma write_blocks_files_other:
  "p \<noteq> path \<Longrightarrow> files (snd (write_blocks path i bs w)) p = files w p"
  by (induction bs arbitrary: w) (simp_all add: Let_def append_file_def)

lemma write_blocks_sent: "sent (snd (write_blocks path i bs w)) = sent w"
  by (induction bs arbitrary: w) (simp_all add: Let_def)

lemma write_blocks_writable: "writable (snd (write_blocks path i bs w)) = writable w"
  by (induction bs arbitrary: w) (simp_all add: Let_def)

lemma write_blocks_bars_length: "length (bars (snd (write_blocks path i bs w))) = length (bars w)"
  by (induction bs arbitrary: w) (simp_all add: Let_def)

lemma write_blocks_file_exists:
  "files w path \<noteq> None \<Longrightarrow> files (snd (write_blocks path i bs w)) path \<noteq> None"
  by (induction bs arbitrary: w) (simp_all add: Let_def append_file_def)

lemma write_blocks_ok:
  "i < length (bars w) \<Longrightarrow> files w path = Some old \<Longrightarrow>
     fst (write_blocks path i bs w) = None \<and>
     files (snd (write_blocks path i bs w)) path = Some (old @ concat bs)"
  by (induction bs arbitrary: w old) (simp_all add: Let_def append_file_def)

lemma write_blocks_empty:
  "\<forall>b \<in> set bs. b = [] \<Longrightarrow> write_blocks path i bs w = (None, w)"
  by (induction bs arbitrary: w) simp_all

lemma write_blocks_no_bar:
  "\<not> i < length (bars w) \<Longrightarrow> \<exists>b \<in> set bs. b \<noteq> [] \<Longrightarrow>
     fst (write_blocks path i bs w) = Some IndexError"
  by (induction bs arbitrary: w) (auto simp: Let_def)

lemma download_chunk_Inl:
  "http_get srv url s e = Inl err \<Longrightarrow>
     download_chunk srv url sp s e i w = (Inl err, w\<lparr>sent := sent w @ [Get url s e]\<rparr>)"
  by (simp add: download_chunk_def)

lemma download_chunk_unwritable:
  "http_get srv url s e = Inr resp \<Longrightarrow> \<not> writable w (temp_file_path sp i) \<Longrightarrow>
     download_chunk srv url sp s e i w = (Inl OSError, w\<lparr>sent := sent w @ [Get url s e]\<rparr>)"
  by (simp add: download_chunk_def)

lemma download_chunk_Inr:
  "http_get srv url s e = Inr resp \<Longrightarrow> writable w (temp_file_path sp i) \<Longrightarrow>
     download_chunk srv url sp s e i w =
       (case fst (write_blocks (temp_file_path sp i) i (blocks resp) (opened url sp s e i w)) of
          Some err \<Rightarrow> Inl err
        | None \<Rightarrow> (case stream_error resp of Some err \<Rightarrow> Inl err | None \<Rightarrow> Inr (temp_file_path sp i)),
        snd (write_blocks (temp_file_path sp i) i (blocks resp) (opened url sp s e i w)))"
  by (simp add: download_chunk_def opened_def Let_def split: prod.splits option.splits)

lemma download_chunk_sent:
  "sent (snd (download_chunk srv url sp s e i w)) = sent w @ [Get url s e]"
  by (cases "http_get srv url s e"; cases "writable w (temp_file_path sp i)")
     (simp_all add: download_chunk_Inl download_chunk_Inr download_chunk_unwritable
        write_blocks_sent opened_def)

lemma download_chunk_writable:
  "writable (snd (download_chunk srv url sp s e i w)) = writable w"
  by (cases "http_get srv url s e"; cases "writable w (temp_file_path sp i)")
     (simp_all add: download_chunk_Inl download_chunk_Inr download_chunk_unwritable
        write_blocks_writable opened_def)

lemma download_chunk_bars_length:
  "length (bars (snd (download_chunk srv url sp s e i w))) = length (bars w)"
  by (cases "http_get srv url s e"; cases "writable w (temp_file_path sp i)")
     (simp_all add: download_chunk_Inl download_chunk_Inr download_chunk_unwritable
        write_blocks_bars_length opened_def)

lemma download_chunk_files_other:
  "p \<noteq> temp_file_path sp i \<Longrightarrow> files (snd (download_chunk srv url sp s e i w)) p = files w p"
  by (cases "http_get srv url s e"; cases "writable w (temp_file_path sp i)")
     (simp_all add: download_chunk_Inl download_chunk_Inr download_chunk_unwritable
        write_blocks_files_other opened_def)

lemma download_chunk_file_exists:
  "http_get srv url s e = Inr resp \<Longrightarrow> writable w (temp_file_path sp i) \<Longrightarrow>
     files (snd (download_chunk srv url sp s e i w)) (temp_file_path sp i) \<noteq> None"
  by (simp add: download_chunk_Inr write_blocks_file_exists opened_def)

lemma download_chunk_path:
  "fst (download_chunk srv url sp s e i w) = Inr r \<Longrightarrow>
     r = temp_file_path sp i \<and> files (snd (download_chunk srv url sp s e i w)) r \<noteq> None"
proof -
  assume ok: "fst (download_chunk srv url sp s e i w) = Inr r"
  then obtain resp where g: "http_get srv url s e = Inr resp"
    by (cases "http_get srv url s e") (simp_all add: download_chunk_Inl)
  from ok g have wr: "writable w (temp_file_path sp i)"
    by (cases "writable w (temp_file_path sp i)") (simp_all add: download_chunk_unwritable)
  from ok have "r = temp_file_path sp i"
    by (auto simp: download_chunk_Inr [OF g wr] split: option.splits)
  with download_chunk_file_exists [OF g wr] show ?thesis
    by simp
qed

lemma download_chunk_response:
  assumes "http_get srv url s e = Inr resp" and "writable w (temp_file_path sp i)"
    and "i < length (bars w)"
  shows "fst (download_chunk srv url sp s e i w) =
           (case stream_error resp of Some err \<Rightarrow> Inl err | None \<Rightarrow> Inr (temp_file_path sp i))"
    and "files (snd (download_chunk srv url sp s e i w)) (temp_file_path sp i) =
           Some (concat (blocks resp))"
proof -
  have b: "i < length (bars (opened url sp s e i w))"
    using assms(3) by (simp add: opened_def)
  have f: "files (opened url sp s e i w) (temp_file_path sp i) = Some []"
    by (simp add: opened_def)
  note wb = write_blocks_ok [OF b f, of "blocks resp"]
  show "fst (download_chunk srv url sp s e i w) =
           (case stream_error resp of Some err \<Rightarrow> Inl err | None \<Rightarrow> Inr (temp_file_path sp i))"
    using wb by (simp add: download_chunk_Inr [OF assms(1,2)])
  show "files (snd (download_chunk srv url sp s e i w)) (temp_file_path sp i) =
           Some (concat (blocks resp))"
    using wb by (simp add: download_chunk_Inr [OF assms(1,2)])
qed

lemma download_chunk_no_bar:
  assumes "http_get srv url s e = Inr resp" and "writable w (temp_file_path sp i)"
    and "\<not> i < length (bars w)"
  shows "fst (download_chunk srv url sp s e i w) =
           (if \<exists>b \<in> set (blocks resp). b \<noteq> [] then Inl IndexError
            else case stream_error resp of
                   Some err \<Rightarrow> Inl err
                 | None \<Rightarrow> Inr (temp_file_path sp i))"
proof (cases "\<exists>b \<in> set (blocks resp). b \<noteq> []")
  case True
  have "\<not> i < length (bars (opened url sp s e i w))"
    using assms(3) by (simp add: opened_def)
  from write_blocks_no_bar [OF this True] True show ?thesis
    by (simp add: download_chunk_Inr [OF assms(1,2)])
next
  case False
  then have "\<forall>b \<in> set (blocks resp). b = []"
    by simp
  from write_blocks_empty [OF this] False show ?thesis
    by (simp add: download_chunk_Inr [OF assms(1,2)])
qed

subsection \<open>Facts about the thread pool\<close>

lemma run_tasks_Cons:
  "run_tasks srv url sp (t # rest) w =
     (fst (download_chunk srv url sp (fst (snd t)) (snd (snd t)) (fst t) w)
        # fst (run_tasks srv url sp rest
                 (snd (download_chunk srv url sp (fst (snd t)) (snd (snd t)) (fst t) w))),
      snd (run_tasks srv url sp rest
             (snd (download_chunk srv url sp (fst (snd t)) (snd (snd t)) (fst t) w))))"
  by (cases t) (simp add: split_beta)

lemma run_tasks_bars_length:
  "length (bars (snd (run_tasks srv url sp tasks w))) = length (bars w)"
  by (induction tasks arbitrary: w) (simp_all add: run_tasks_Cons download_chunk_bars_length)

lemma run_tasks_writable:
  "writable (snd (run_tasks srv url sp tasks w)) = writable w"
  by (induction tasks arbitrary: w) (simp_all add: run_tasks_Cons download_chunk_writable)

lemma run_tasks_sent:
  "sent (snd (run_tasks srv url sp tasks w)) =
     sent w @ map (\<lambda>t. Get url (fst (snd t)) (snd (snd t))) tasks"
  by (induction tasks arbitrary: w) (simp_all add: run_tasks_Cons download_chunk_sent)

lemma run_tasks_files_other:
  "\<forall>t \<in> set tasks. p \<noteq> temp_file_path sp (fst t) \<Longrightarrow>
     files (snd (run_tasks srv url sp tasks w)) p = files w p"
  by (induction tasks arbitrary: w) (simp_all add: run_tasks_Cons download_chunk_files_other)

lemma download_chunk_result:
  "i < length (bars w) \<Longrightarrow>
     fst (download_chunk srv url sp s e i w) = chunk_result srv (writable w) url sp (i, s, e)"
  by (cases "http_get srv url s e"; cases "writable w (temp_file_path sp i)")
     (simp_all add: chunk_result_def download_chunk_Inl download_chunk_unwritable
        download_chunk_response)

lemma download_chunk_body:
  "i < length (bars w) \<Longrightarrow> chunk_body srv (writable w) url sp (i, s, e) = Some bs \<Longrightarrow>
     files (snd (download_chunk srv url sp s e i w)) (temp_file_path sp i) = Some bs"
  by (cases "http_get srv url s e"; cases "writable w (temp_file_path sp i)")
     (auto simp: chunk_body_def download_chunk_response)

lemma download_chunk_no_body:
  "chunk_body srv (writable w) url sp (i, s, e) = None \<Longrightarrow>
     files (snd (download_chunk srv url sp s e i w)) = files w"
  by (cases "http_get srv url s e"; cases "writable w (temp_file_path sp i)")
     (simp_all add: chunk_body_def download_chunk_Inl download_chunk_unwritable)

lemma run_tasks_results:
  "\<forall>t \<in> set tasks. fst t < length (bars w) \<Longrightarrow>
     fst (run_tasks srv url sp tasks w) = map (chunk_result srv (writable w) url sp) tasks"
proof (induction tasks arbitrary: w)
  case Nil
  show ?case by simp
next
  case (Cons t rest)
  obtain i s e where t: "t = (i, s, e)"
    by (cases t)
  from Cons.prems t have i: "i < length (bars w)"
    by simp
  from Cons.prems
  have "\<forall>t \<in> set rest. fst t < length (bars (snd (download_chunk srv url sp s e i w)))"
    by (simp add: download_chunk_bars_length)
  from Cons.IH [OF this] i show ?case
    by (simp add: run_tasks_Cons t download_chunk_result download_chunk_writable)
qed

lemma run_tasks_files:
  "distinct (map fst tasks) \<Longrightarrow> \<forall>t \<in> set tasks. fst t < length (bars w) \<Longrightarrow>
     t \<in> set tasks \<Longrightarrow> chunk_body srv (writable w) url sp t = Some bs \<Longrightarrow>
     files (snd (run_tasks srv url sp tasks w)) (temp_file_path sp (fst t)) = Some bs"
proof (induction tasks arbitrary: w)
  case Nil
  then show ?case by simp
next
  case (Cons a rest)
  obtain i s e where a: "a = (i, s, e)"
    by (cases a)
  let ?w1 = "snd (download_chunk srv url sp s e i w)"
  have bars1: "\<forall>t \<in> set rest. fst t < length (bars ?w1)"
    using Cons.prems(2) by (simp add: download_chunk_bars_length)
  have body1: "chunk_body srv (writable ?w1) url sp t = Some bs"
    using Cons.prems(4) by (simp add: download_chunk_writable)
  show ?case
  proof (cases "t \<in> set rest")
    case True
    from Cons.IH [OF _ bars1 True body1] Cons.prems(1) show ?thesis
      by (simp add: run_tasks_Cons a)
  next
    case False
    with Cons.prems(3) have ta: "t = a"
      by simp
    from Cons.prems(1) a have "\<forall>u \<in> set rest. temp_file_path sp i \<noteq> temp_file_path sp (fst u)"
      by (auto simp: temp_file_path_inj)
    then have "files (snd (run_tasks srv url sp rest ?w1)) (temp_file_path sp i)
                 = files ?w1 (temp_file_path sp i)"
      by (rule run_tasks_files_other)
    moreover from Cons.prems(2,4) ta a
    have "files ?w1 (temp_file_path sp i) = Some bs"
      by (simp add: download_chunk_body)
    ultimately show ?thesis
      by (simp add: run_tasks_Cons a ta)
  qed
qed

lemma run_tasks_no_file:
  "distinct (map fst tasks) \<Longrightarrow> t \<in> set tasks \<Longrightarrow>
     chunk_body srv (writable w) url sp t = None \<Longrightarrow>
     files (snd (run_tasks srv url sp tasks w)) (temp_file_path sp (fst t))
       = files w (temp_file_path sp (fst t))"
proof (induction tasks arbitrary: w)
  case Nil
  then show ?case by simp
next
  case (Cons a rest)
  obtain i s e where a: "a = (i, s, e)"
    by (cases a)
  let ?w1 = "snd (download_chunk srv url sp s e i w)"
  have body1: "chunk_body srv (writable ?w1) url sp t = None"
    using Cons.prems(3) by (simp add: download_chunk_writable)
  show ?case
  proof (cases "t \<in> set rest")
    case True
    with Cons.prems(1) a have "fst t \<noteq> i"
      by auto
    then have "files ?w1 (temp_file_path sp (fst t)) = files w (temp_file_path sp (fst t))"
      by (simp add: download_chunk_files_other temp_file_path_inj)
    with Cons.IH [OF _ True body1] Cons.prems(1) show ?thesis
      by (simp add: run_tasks_Cons a)
  next
    case False
    with Cons.prems(2) have ta: "t = a"
      by simp
    from Cons.prems(1) a have "\<forall>u \<in> set rest. temp_file_path sp i \<noteq> temp_file_path sp (fst u)"
      by (auto simp: temp_file_path_inj)
    then have "files (snd (run_tasks srv url sp rest ?w1)) (temp_file_path sp i)
                 = files ?w1 (temp_file_path sp i)"
      by (rule run_tasks_files_other)
    moreover from Cons.prems(3) ta a have "files ?w1 = files w"
      by (simp add: download_chunk_no_body)
    ultimately show ?thesis
      by (simp add: run_tasks_Cons a ta)
  qed
qed

lemma collect_Inl: "\<exists>r \<in> set rs. isl r \<Longrightarrow> \<exists>e. collect rs = Inl e"
  by (induction rs rule: collect.induct) (auto split: sum.splits)

lemma collect_Inr: "\<forall>r \<in> set rs. \<not> isl r \<Longrightarrow> collect rs = Inr (map projr rs)"
  by (induction rs rule: collect.induct) (auto split: sum.splits)

subsection \<open>Facts about the merge\<close>

lemma merge_loop_sent: "sent (snd (merge_loop ts sp w)) = sent w"
  by (induction ts arbitrary: w) (simp_all split: option.splits)

lemma merge_loop_ok:
  "distinct ts \<Longrightarrow> sp \<notin> set ts \<Longrightarrow> \<forall>t \<in> set ts. files w t \<noteq> None \<Longrightarrow>
   files w sp = Some acc \<Longrightarrow>
     fst (merge_loop ts sp w) = Inr () \<and>
     files (snd (merge_loop ts sp w)) sp = Some (acc @ concat (map (\<lambda>t. the (files w t)) ts)) \<and>
     (\<forall>t \<in> set ts. files (snd (merge_loop ts sp w)) t = None) \<and>
     (\<forall>p. p \<notin> set ts \<and> p \<noteq> sp \<longrightarrow> files (snd (merge_loop ts sp w)) p = files w p)"
proof (induction ts arbitrary: w acc)
  case Nil
  then show ?case by simp
next
  case (Cons t rest)
  from Cons.prems obtain content where c: "files w t = Some content"
    by auto
  let ?w1 = "w\<lparr>files := (append_file sp content (files w))(t := None)\<rparr>"
  from Cons.prems have tsp: "t \<noteq> sp" and trest: "t \<notin> set rest"
    by auto
  have other: "files ?w1 p = files w p" if "p \<noteq> t" "p \<noteq> sp" for p
    using that by (simp add: append_file_def)
  have same: "\<forall>u \<in> set rest. files ?w1 u = files w u"
    using Cons.prems(1,2) by (auto simp: append_file_def)
  have d: "distinct rest" and s: "sp \<notin> set rest"
    using Cons.prems by auto
  have ex: "\<forall>u \<in> set rest. files ?w1 u \<noteq> None"
    using same Cons.prems(3) by simp
  have a: "files ?w1 sp = Some (acc @ content)"
    using tsp Cons.prems(4) by (simp add: append_file_def)
  note IH = Cons.IH [OF d s ex a]
  have m: "map (\<lambda>u. the (files ?w1 u)) rest = map (\<lambda>u. the (files w u)) rest"
    using same by (simp cong: map_cong)
  have step: "merge_loop (t # rest) sp w = merge_loop rest sp ?w1"
    by (simp add: c)
  have gone: "files (snd (merge_loop rest sp ?w1)) t = None"
  proof -
    from IH trest tsp have "files (snd (merge_loop rest sp ?w1)) t = files ?w1 t"
      by blast
    then show ?thesis by simp
  qed
  show ?case
    unfolding step
  proof (intro conjI)
    show "fst (merge_loop rest sp ?w1) = Inr ()"
      using IH by blast
    from IH have "files (snd (merge_loop rest sp ?w1)) sp
            = Some ((acc @ content) @ concat (map (\<lambda>u. the (files ?w1 u)) rest))"
      by blast
    then have "files (snd (merge_loop rest sp ?w1)) sp
            = Some ((acc @ content) @ concat (map (\<lambda>u. the (files w u)) rest))"
      by (simp only: m)
    then show "files (snd (merge_loop rest sp ?w1)) sp
            = Some (acc @ concat (map (\<lambda>t. the (files w t)) (t # rest)))"
      by (simp add: c)
    show "\<forall>u \<in> set (t # rest). files (snd (merge_loop rest sp ?w1)) u = None"
      using IH gone by simp
    show "\<forall>p. p \<notin> set (t # rest) \<and> p \<noteq> sp \<longrightarrow>
            files (snd (merge_loop rest sp ?w1)) p = files w p"
    proof (intro allI impI)
      fix p
      assume p: "p \<notin> set (t # rest) \<and> p \<noteq> sp"
      with IH have "files (snd (merge_loop rest sp ?w1)) p = files ?w1 p"
        by simp
      with p other [of p] show "files (snd (merge_loop rest sp ?w1)) p = files w p"
        by simp
    qed
  qed
qed

subsection \<open>Facts about the whole download\<close>

lemma as_completed_permutation:
  "set order \<subseteq> {..<length ranges} \<Longrightarrow>
     as_completed order (List.enumerate 0 ranges) = map (\<lambda>k. (k, ranges ! k)) order"
proof -
  assume a: "set order \<subseteq> {..<length ranges}"
  then have f: "filter (\<lambda>k. k < length (List.enumerate 0 ranges)) order = order"
    by (auto simp: filter_id_conv)
  show ?thesis
    unfolding as_completed_def f
    using a by (auto simp: nth_enumerate_eq)
qed

lemma length_chunk_ranges: "length (chunk_ranges total_size cs n) = nat n"
  by (simp add: chunk_ranges_def)

lemma download_unfold:
  "0 < n \<Longrightarrow> http_head srv url = Inr (Length total_size) \<Longrightarrow>
     download_file_in_chunks srv order url sp n w =
       (case collect (fst (run_tasks srv url sp (tasks_of order total_size n)
                             (start_world url total_size n w))) of
          Inl e \<Rightarrow> (Inl e, snd (run_tasks srv url sp (tasks_of order total_size n)
                             (start_world url total_size n w)))
        | Inr temp_files \<Rightarrow> merge_files temp_files sp
             (snd (run_tasks srv url sp (tasks_of order total_size n)
                             (start_world url total_size n w))))"
  unfolding tasks_of_def start_world_def
  by (simp add: download_file_in_chunks_def plan_def Let_def split_beta)

lemma tasks_of_permutation:
  "set order \<subseteq> {..<nat n} \<Longrightarrow>
     tasks_of order total_size n =
       map (\<lambda>k. (k, chunk_ranges total_size (total_size div n) n ! k)) order"
  unfolding tasks_of_def
  by (rule as_completed_permutation) (simp add: length_chunk_ranges)

lemma tasks_of_bars:
  "set order \<subseteq> {..<nat n} \<Longrightarrow>
     \<forall>t \<in> set (tasks_of order total_size n). fst t < length (bars (start_world url total_size n w))"
  by (auto simp: tasks_of_permutation start_world_def length_chunk_ranges)

lemma download_some_fail:
  assumes n: "0 < n" and head: "http_head srv url = Inr (Length total_size)"
    and sub: "set order = {..<nat n}"
    and k: "k < nat n"
    and bad: "isl (chunk_result srv (writable w) url sp
                    (k, chunk_ranges total_size (total_size div n) n ! k))"
  shows "\<exists>e. fst (download_file_in_chunks srv order url sp n w) = Inl e"
    and "snd (download_file_in_chunks srv order url sp n w) =
           snd (run_tasks srv url sp (tasks_of order total_size n) (start_world url total_size n w))"
proof -
  let ?rt = "run_tasks srv url sp (tasks_of order total_size n) (start_world url total_size n w)"
  from sub have sub': "set order \<subseteq> {..<nat n}"
    by simp
  have res: "fst ?rt = map (chunk_result srv (writable w) url sp) (tasks_of order total_size n)"
    using run_tasks_results [OF tasks_of_bars [OF sub'], of srv url sp total_size url w]
    by (simp add: start_world_def)
  from k sub have "k \<in> set order"
    by simp
  then have "(k, chunk_ranges total_size (total_size div n) n ! k) \<in> set (tasks_of order total_size n)"
    by (simp add: tasks_of_permutation [OF sub'])
  with bad have "\<exists>r \<in> set (fst ?rt). isl r"
    unfolding res by (simp only: set_map) (rule bexI [OF _ imageI])
  from collect_Inl [OF this] obtain e where e: "collect (fst ?rt) = Inl e" ..
  show "\<exists>e. fst (download_file_in_chunks srv order url sp n w) = Inl e"
    by (simp add: download_unfold [OF n head] e)
  show "snd (download_file_in_chunks srv order url sp n w) = snd ?rt"
    by (simp add: download_unfold [OF n head] e)
qed

lemma run_all_files:
  assumes d: "distinct order" and sub: "set order \<subseteq> {..<nat n}"
    and j: "j \<in> set order"
    and body: "chunk_body srv (writable w) url sp
                 (j, chunk_ranges total_size (total_size div n) n ! j) = Some bs"
  shows "files (snd (run_tasks srv url sp (tasks_of order total_size n)
                  (start_world url total_size n w))) (temp_file_path sp j) = Some bs"
proof -
  have body': "chunk_body srv (writable (start_world url total_size n w)) url sp
                 (j, chunk_ranges total_size (total_size div n) n ! j) = Some bs"
    using body by (simp add: start_world_def)
  let ?t = "(j, chunk_ranges total_size (total_size div n) n ! j)"
  have dm: "distinct (map fst (tasks_of order total_size n))"
    using d by (simp add: tasks_of_permutation [OF sub] comp_def)
  have mem: "?t \<in> set (tasks_of order total_size n)"
    using j by (simp add: tasks_of_permutation [OF sub])
  from run_tasks_files [OF dm tasks_of_bars [OF sub] mem body']
  show ?thesis
    by simp
qed

lemma run_all_no_file:
  assumes d: "distinct order" and sub: "set order \<subseteq> {..<nat n}"
    and j: "j \<in> set order"
    and body: "chunk_body srv (writable w) url sp
                 (j, chunk_ranges total_size (total_size div n) n ! j) = None"
  shows "files (snd (run_tasks srv url sp (tasks_of order total_size n)
                  (start_world url total_size n w))) (temp_file_path sp j)
           = files w (temp_file_path sp j)"
proof -
  let ?t = "(j, chunk_ranges total_size (total_size div n) n ! j)"
  have body': "chunk_body srv (writable (start_world url total_size n w)) url sp ?t = None"
    using body by (simp add: start_world_def)
  have dm: "distinct (map fst (tasks_of order total_size n))"
    using d by (simp add: tasks_of_permutation [OF sub] comp_def)
  have mem: "?t \<in> set (tasks_of order total_size n)"
    using j by (simp add: tasks_of_permutation [OF sub])
  from run_tasks_no_file [OF dm mem body']
  show ?thesis
    by (simp add: start_world_def)
qed

lemma run_all_files_other:
  "\<forall>k. p \<noteq> temp_file_path sp k \<Longrightarrow>
     files (snd (run_tasks srv url sp tasks (start_world url total_size n w))) p = files w p"
  by (simp add: run_tasks_files_other start_world_def)

lemma chunk_result_Inr:
  "\<not> isl (chunk_result srv wr url sp (k, r)) \<Longrightarrow>
     chunk_result srv wr url sp (k, r) = Inr (temp_file_path sp k) \<and>
     chunk_body srv wr url sp (k, r) \<noteq> None"
  by (cases r)
     (auto simp: chunk_result_def chunk_body_def split: sum.splits option.splits if_splits)

lemma download_all_succeed:
  assumes n: "0 < n" and head: "http_head srv url = Inr (Length total_size)"
    and d: "distinct order" and sub: "set order \<subseteq> {..<nat n}"
    and wsp: "writable w sp"
    and ok: "\<forall>k \<in> set order.
               \<not> isl (chunk_result srv (writable w) url sp
                        (k, chunk_ranges total_size (total_size div n) n ! k))"
  shows "fst (download_file_in_chunks srv order url sp n w) = Inr ()"
    and "files (snd (download_file_in_chunks srv order url sp n w)) sp =
           Some (concat (map (\<lambda>k. the (chunk_body srv (writable w) url sp
                   (k, chunk_ranges total_size (total_size div n) n ! k))) order))"
    and "\<forall>k \<in> set order. files (snd (download_file_in_chunks srv order url sp n w))
           (temp_file_path sp k) = None"
proof -
  let ?r = "\<lambda>k. chunk_ranges total_size (total_size div n) n ! k"
  let ?temps = "map (temp_file_path sp) order"
  define rt where "rt = run_tasks srv url sp (tasks_of order total_size n) (start_world url total_size n w)"
  define w4 where "w4 = (snd rt)\<lparr>files := (files (snd rt))(sp \<mapsto> [])\<rparr>"
  have wrt: "writable (snd rt) = writable w"
    by (simp add: rt_def run_tasks_writable start_world_def)
  have res: "fst rt = map (\<lambda>k. chunk_result srv (writable w) url sp (k, ?r k)) order"
    unfolding rt_def
    using run_tasks_results [OF tasks_of_bars [OF sub], of srv url sp total_size url w]
    by (simp add: tasks_of_permutation [OF sub] comp_def start_world_def)
  have "\<forall>x \<in> set (fst rt). \<not> isl x"
    unfolding res using ok by auto
  then have "collect (fst rt) = Inr (map projr (fst rt))"
    by (rule collect_Inr)
  also have "map projr (fst rt) = ?temps"
    unfolding res using ok by (simp add: chunk_result_Inr)
  finally have col: "collect (fst rt) = Inr ?temps" .
  have dl: "download_file_in_chunks srv order url sp n w = merge_loop ?temps sp w4"
    using col wrt wsp unfolding w4_def rt_def
    by (simp add: download_unfold [OF n head] merge_files_def)
  have body: "files w4 (temp_file_path sp k) = chunk_body srv (writable w) url sp (k, ?r k)"
    if "k \<in> set order" for k
  proof -
    from ok that obtain bs where bs: "chunk_body srv (writable w) url sp (k, ?r k) = Some bs"
      using chunk_result_Inr [of srv "writable w" url sp k "?r k"] by auto
    from run_all_files [OF d sub that bs] bs show ?thesis
      unfolding w4_def rt_def by (simp add: temp_file_path_neq)
  qed
  have dt: "distinct ?temps"
    using d by (simp add: distinct_map inj_on_def temp_file_path_inj)
  have nsp: "sp \<notin> set ?temps"
    by (auto simp: temp_file_path_neq [symmetric])
  have ex: "\<forall>t \<in> set ?temps. files w4 t \<noteq> None"
  proof
    fix t
    assume "t \<in> set ?temps"
    then obtain k where k: "k \<in> set order" and t: "t = temp_file_path sp k"
      by auto
    from ok k have "chunk_body srv (writable w) url sp (k, ?r k) \<noteq> None"
      using chunk_result_Inr [of srv "writable w" url sp k "?r k"] by blast
    with body [OF k] show "files w4 t \<noteq> None"
      unfolding t by simp
  qed
  have acc: "files w4 sp = Some []"
    by (simp add: w4_def)
  note M = merge_loop_ok [OF dt nsp ex acc]
  show "fst (download_file_in_chunks srv order url sp n w) = Inr ()"
    unfolding dl using M by blast
  have meq: "map (\<lambda>t. the (files w4 t)) ?temps
               = map (\<lambda>k. the (chunk_body srv (writable w) url sp (k, ?r k))) order"
    by (simp add: body)
  from M have out: "files (snd (merge_loop ?temps sp w4)) sp
      = Some ([] @ concat (map (\<lambda>t. the (files w4 t)) ?temps))"
    by blast
  show "files (snd (download_file_in_chunks srv order url sp n w)) sp =
           Some (concat (map (\<lambda>k. the (chunk_body srv (writable w) url sp (k, ?r k))) order))"
    unfolding dl out meq by simp
  from M have "\<forall>t \<in> set ?temps. files (snd (merge_loop ?temps sp w4)) t = None"
    by blast
  then show "\<forall>k \<in> set order. files (snd (download_file_in_chunks srv order url sp n w))
           (temp_file_path sp k) = None"
    unfolding dl by simp
qed

lemma plan_chunk_ranges:
  "0 < n \<Longrightarrow> plan total_size n = Inr ranges \<Longrightarrow>
     ranges = chunk_ranges total_size (total_size div n) n"
  by (simp add: plan_def)

subsection \<open>Facts about the planned ranges\<close>

lemma chunks_fit:
  fixes n total_size :: int
  assumes "0 < n" and "int i < n" and "0 \<le> total_size div n"
  shows "(int i + 1) * (total_size div n) \<le> total_size"
proof -
  have "(int i + 1) * (total_size div n) \<le> n * (total_size div n)"
    using assms by (intro mult_right_mono) simp_all
  also have "\<dots> = total_size - total_size mod n"
    by (simp add: minus_mod_eq_mult_div)
  also have "\<dots> \<le> total_size"
    using assms(1) by simp
  finally show ?thesis .
qed

lemma chunk_ranges_nth:
  assumes "0 < n" and "i < nat n" and "0 \<le> total_size div n"
  shows "chunk_ranges total_size (total_size div n) n ! i =
           (int i * (total_size div n), (int i + 1) * (total_size div n) - 1)"
proof -
  from assms(2) have "int i < n"
    by simp
  from chunks_fit [OF assms(1) this assms(3)] assms(2) show ?thesis
    by (simp add: chunk_ranges_def min_def)
qed

lemma covered_chunk_ranges:
  assumes "0 < n" and "1 \<le> total_size div n"
  shows "covered (chunk_ranges total_size (total_size div n) n) = {0 .. n * (total_size div n) - 1}"
proof -
  let ?c = "total_size div n"
  have c0: "0 \<le> ?c" and c1: "0 < ?c"
    using assms(2) by simp_all
  have cov: "covered (chunk_ranges total_size ?c n)
               = (\<Union>i \<in> {..<nat n}. {int i * ?c .. (int i + 1) * ?c - 1})"
  proof -
    have "set (chunk_ranges total_size ?c n)
            = (\<lambda>i. (int i * ?c, (int i + 1) * ?c - 1)) ` {..<nat n}"
    proof -
      have "chunk_ranges total_size ?c n = map (\<lambda>i. (int i * ?c, (int i + 1) * ?c - 1)) [0..<nat n]"
        by (rule nth_equalityI)
           (simp_all add: length_chunk_ranges chunk_ranges_nth [OF assms(1) _ c0])
      then show ?thesis
        by (simp add: atLeast0LessThan)
    qed
    then show ?thesis
      by (simp add: covered_def)
  qed
  show ?thesis
    unfolding cov
  proof (intro set_eqI iffI)
    fix x
    assume "x \<in> (\<Union>i \<in> {..<nat n}. {int i * ?c .. (int i + 1) * ?c - 1})"
    then obtain i where i: "i < nat n" and lo: "int i * ?c \<le> x" and hi: "x \<le> (int i + 1) * ?c - 1"
      by auto
    have "0 \<le> int i * ?c"
      using c0 by simp
    moreover have "(int i + 1) * ?c \<le> n * ?c"
      using i c0 by (intro mult_right_mono) simp_all
    ultimately show "x \<in> {0 .. n * ?c - 1}"
      using lo hi by simp
  next
    fix x
    assume x: "x \<in> {0 .. n * ?c - 1}"
    define i where "i = nat (x div ?c)"
    from x c1 have q0: "0 \<le> x div ?c"
      by (simp add: pos_imp_zdiv_nonneg_iff)
    have "x < n * ?c"
      using x by simp
    have "x div ?c < n"
    proof (rule ccontr)
      assume "\<not> x div ?c < n"
      then have "n * ?c \<le> (x div ?c) * ?c"
        using c0 by (intro mult_right_mono) simp_all
      also have "\<dots> = x - x mod ?c"
        by (simp add: minus_mod_eq_div_mult)
      also have "\<dots> \<le> x"
        using c1 by simp
      finally show False
        using \<open>x < n * ?c\<close> by simp
    qed
    with q0 have i: "i < nat n"
      by (simp add: i_def)
    have ii: "int i = x div ?c"
      using q0 by (simp add: i_def)
    define r where "r = x mod ?c"
    have r: "0 \<le> r" "r < ?c"
      using c1 by (simp_all add: r_def)
    have "x = int i * ?c + r"
      unfolding ii r_def by (rule div_mult_mod_eq [symmetric])
    with r have "int i * ?c \<le> x" and "x \<le> (int i + 1) * ?c - 1"
      by (simp_all add: algebra_simps)
    with i show "x \<in> (\<Union>i \<in> {..<nat n}. {int i * ?c .. (int i + 1) * ?c - 1})"
      by auto
  qed
qed

lemma uncovered_chunk_ranges:
  assumes "0 < n" and "1 \<le> total_size div n"
  shows "{0 .. total_size - 1} - covered (chunk_ranges total_size (total_size div n) n)
           = {total_size - total_size mod n .. total_size - 1}"
    and "card ({0 .. total_size - 1} - covered (chunk_ranges total_size (total_size div n) n))
           = nat (total_size mod n)"
proof -
  have e: "n * (total_size div n) = total_size - total_size mod n"
    by (simp add: minus_mod_eq_mult_div)
  have p: "0 \<le> total_size - total_size mod n"
    using assms unfolding e [symmetric] by simp
  show s: "{0 .. total_size - 1} - covered (chunk_ranges total_size (total_size div n) n)
           = {total_size - total_size mod n .. total_size - 1}"
    unfolding covered_chunk_ranges [OF assms] e using p by auto
  show "card ({0 .. total_size - 1} - covered (chunk_ranges total_size (total_size div n) n))
           = nat (total_size mod n)"
    unfolding s by simp
qed

subsection \<open>Facts about a server that serves the exact bytes\<close>

lemma exact_server_result:
  "wr (temp_file_path sp k) \<Longrightarrow>
     chunk_result (exact_server data) wr url sp (k, r) = Inr (temp_file_path sp k)"
  by (cases r) (simp add: chunk_result_def exact_server_def)

lemma exact_server_body:
  "wr (temp_file_path sp k) \<Longrightarrow>
     chunk_body (exact_server data) wr url sp (k, s, e)
       = Some (take (nat (e + 1 - s)) (drop (nat s) data))"
  by (simp add: chunk_body_def exact_server_def)

lemma exact_server_chunk:
  assumes "0 < n" and "k < nat n" and "1 \<le> total_size div n"
    and "wr (temp_file_path sp k)"
  shows "the (chunk_body (exact_server data) wr url sp
               (k, chunk_ranges total_size (total_size div n) n ! k))
           = take (nat (total_size div n)) (drop (k * nat (total_size div n)) data)"
proof -
  have c0: "0 \<le> total_size div n"
    using assms(3) by simp
  have "nat (int k * (total_size div n)) = k * nat (total_size div n)"
    by (simp add: nat_mult_distrib)
  then show ?thesis
    by (simp add: chunk_ranges_nth [OF assms(1,2) c0] exact_server_body assms(4)
          algebra_simps)
qed

lemma concat_slices:
  "concat (map (\<lambda>k. take c (drop (k * c) data)) [0..<m]) = take (m * c) data"
proof (induction m)
  case 0
  show ?case by simp
next
  case (Suc m)
  have "take (m * c) data @ take c (drop (m * c) data) = take (m * c + c) data"
    by (simp add: take_add)
  with Suc show ?case
    by (simp add: add.commute)
qed

lemma length_concat_slices:
  assumes "\<forall>k \<in> set order. (k + 1) * c \<le> length data"
  shows "length (concat (map (\<lambda>k. take c (drop (k * c) data)) order)) = length order * c"
  using assms by (induction order) (auto simp: min_def)

lemma exact_download:
  assumes n: "0 < n" and c: "1 \<le> total_size div n" and len: "int (length data) = total_size"
    and d: "distinct order" and s: "set order = {..<nat n}"
    and wsp: "writable w sp" and wtmp: "\<forall>k < nat n. writable w (temp_file_path sp k)"
  shows "fst (download_file_in_chunks (exact_server data) order url sp n w) = Inr ()"
    and "files (snd (download_file_in_chunks (exact_server data) order url sp n w)) sp =
           Some (concat (map (\<lambda>k. take (nat (total_size div n))
                                     (drop (k * nat (total_size div n)) data)) order))"
proof -
  have head: "http_head (exact_server data) url = Inr (Length total_size)"
    by (simp add: exact_server_def len)
  have sub: "set order \<subseteq> {..<nat n}"
    using s by simp
  have ok: "\<forall>k \<in> set order. \<not> isl (chunk_result (exact_server data) (writable w) url sp
               (k, chunk_ranges total_size (total_size div n) n ! k))"
    using s wtmp by (simp add: exact_server_result)
  note D = download_all_succeed [OF n head d sub wsp ok]
  show "fst (download_file_in_chunks (exact_server data) order url sp n w) = Inr ()"
    by (rule D(1))
  have meq: "map (\<lambda>k. the (chunk_body (exact_server data) (writable w) url sp
                (k, chunk_ranges total_size (total_size div n) n ! k))) order
          = map (\<lambda>k. take (nat (total_size div n)) (drop (k * nat (total_size div n)) data)) order"
    using s wtmp by (simp add: exact_server_chunk [OF n _ c])
  show "files (snd (download_file_in_chunks (exact_server data) order url sp n w)) sp =
           Some (concat (map (\<lambda>k. take (nat (total_size div n))
                                     (drop (k * nat (total_size div n)) data)) order))"
    unfolding D(2) meq by (rule refl)
qed

lemma fetched_size:
  fixes n total_size :: int
  assumes "0 < n" and "1 \<le> total_size div n"
  shows "nat n * nat (total_size div n) = nat (total_size - total_size mod n)"
proof -
  have "int (nat n * nat (total_size div n)) = n * (total_size div n)"
    using assms by simp
  also have "\<dots> = total_size - total_size mod n"
    by (simp add: minus_mod_eq_mult_div)
  finally show ?thesis
    by linarith
qed

lemma exact_download_length:
  assumes n: "0 < n" and c: "1 \<le> total_size div n" and len: "int (length data) = total_size"
    and d: "distinct order" and s: "set order = {..<nat n}"
    and wsp: "writable w sp" and wtmp: "\<forall>k < nat n. writable w (temp_file_path sp k)"
  shows "\<exists>out. files (snd (download_file_in_chunks (exact_server data) order url sp n w)) sp
                 = Some out \<and> int (length out) = total_size - total_size mod n"
proof -
  let ?c = "nat (total_size div n)"
  have fit: "\<forall>k \<in> set order. (k + 1) * ?c \<le> length data"
  proof
    fix k
    assume "k \<in> set order"
    with s have "int k < n"
      by simp
    from chunks_fit [OF n this] c have "(int k + 1) * (total_size div n) \<le> int (length data)"
      by (simp add: len)
    moreover have "int ((k + 1) * ?c) = (int k + 1) * (total_size div n)"
      using c by (simp add: algebra_simps)
    ultimately show "(k + 1) * ?c \<le> length data"
      by linarith
  qed
  have "length order = nat n"
    using distinct_card [OF d] s by simp
  with length_concat_slices [OF fit]
  have "length (concat (map (\<lambda>k. take ?c (drop (k * ?c) data)) order))
          = nat (total_size - total_size mod n)"
    by (simp add: fetched_size [OF n c])
  moreover have "0 \<le> total_size - total_size mod n"
  proof -
    have "0 \<le> n * (total_size div n)"
      using n c by simp
    then show ?thesis
      by (simp only: minus_mod_eq_mult_div)
  qed
  ultimately have "int (length (concat (map (\<lambda>k. take ?c (drop (k * ?c) data)) order)))
          = total_size - total_size mod n"
    by simp
  with exact_download(2) [OF n c len d s wsp wtmp, of url] show ?thesis
    by blast
qed

lemma exact_download_in_order:
  assumes n: "0 < n" and c: "1 \<le> total_size div n" and len: "int (length data) = total_size"
    and wsp: "writable w sp" and wtmp: "\<forall>k < nat n. writable w (temp_file_path sp k)"
  shows "files (snd (download_file_in_chunks (exact_server data) [0..<nat n] url sp n w)) sp
           = Some (take (nat (total_size - total_size mod n)) data)"
proof -
  have d: "distinct [0..<nat n]" and s: "set [0..<nat n] = {..<nat n}"
    by (simp_all add: atLeast0LessThan)
  show ?thesis
    unfolding exact_download(2) [OF n c len d s wsp wtmp] concat_slices
    by (simp add: fetched_size [OF n c])
qed

subsection \<open>The claims\<close>

text \<open>
  Claim C7. With a thread count of zero or less the download raises ValueError at once:
  the world is returned as it was, so no request has been sent and no file created.
\<close>

theorem nonpositive_threads_rejected:
  "num_threads \<le> 0 \<Longrightarrow>
     download_file_in_chunks srv order url save_path num_threads w = (Inl ValueError, w)"
  by (simp add: download_file_in_chunks_def)

theorem nonpositive_threads_rejected_witness:
  "(0::int) \<le> 0 \<and>
   download_file_in_chunks no_length_server [] ''http://h/f'' ''out'' 0 empty_world
     = (Inl ValueError, empty_world)"
  using nonpositive_threads_rejected [of 0 no_length_server "[]" "''http://h/f''" "''out''" empty_world]
  by simp

text \<open>
  Claim C8. When the HEAD response carries no Content-Length, the download raises KeyError
  from the header lookup. The HEAD request is the only request sent: no range is planned,
  no chunk fetch is dispatched, and the files are as before. (A thread count of zero or
  less is rejected before the HEAD request, see C7.)
\<close>

theorem missing_content_length_fails:
  "http_head srv url = Inr Absent \<Longrightarrow>
     download_file_in_chunks srv order url save_path num_threads w =
       (if num_threads \<le> 0 then (Inl ValueError, w)
        else (Inl KeyError, w\<lparr>sent := sent w @ [Head url]\<rparr>))"
  by (simp add: download_file_in_chunks_def)

theorem missing_content_length_fails_witness:
  "http_head no_length_server ''http://h/f'' = Inr Absent \<and>
   download_file_in_chunks no_length_server [0, 1] ''http://h/f'' ''out'' 2 empty_world
     = (Inl KeyError,
        \<lparr>files = Map.empty, writable = (\<lambda>_. True), sent = [Head ''http://h/f''], bars = []\<rparr>)"
  using missing_content_length_fails
          [of no_length_server "''http://h/f''" "[0, 1]" "''out''" 2 empty_world]
  by (simp add: no_length_server_def empty_world_def)

text \<open>
  Claim C1, at total_size = 10 and num_chunks = 3. The plan has three ranges, but they
  cover only the bytes 0..8: byte 9 of the interval [0, 9] is in no range.
\<close>

theorem plan_10_3_leaves_last_byte_uncovered:
  "plan 10 3 = Inr [(0, 2), (3, 5), (6, 8)] \<and>
   length [(0::int, 2::int), (3, 5), (6, 8)] = 3 \<and>
   covered [(0, 2), (3, 5), (6, 8)] = {0..8} \<and>
   (9::int) \<in> {0..10 - 1} \<and> 9 \<notin> covered [(0, 2), (3, 5), (6, 8)]"
proof -
  have p: "plan 10 3 = Inr [(0, 2), (3, 5), (6, 8)]"
    by (simp add: plan_def chunk_ranges_def upt_conv_Cons)
  have c: "covered [(0, 2), (3, 5), (6, 8)] = {0..8}"
    by (auto simp: covered_def)
  from p c show ?thesis
    by simp
qed

text \<open>
  Claim C2, at total_size = 10 and num_chunks = 3. The plan is [(0,2),(3,5),(6,8)]: the
  last range ends at 8, not at total_size - 1 = 9, so the remainder is not absorbed.
\<close>

theorem plan_10_3_value:
  "plan 10 3 = Inr [(0, 2), (3, 5), (6, 8)] \<and>
   plan 10 3 \<noteq> Inr [(0, 2), (3, 5), (6, 9)] \<and>
   snd (last [(0::int, 2::int), (3, 5), (6, 8)]) \<noteq> 10 - 1"
  by (simp add: plan_def chunk_ranges_def upt_conv_Cons)

text \<open>
  Claim C4 as stated fails: planning 5 bytes into 10 chunks raises nothing and returns a
  list of ten ranges.
\<close>

theorem plan_5_10_returns_ranges:
  "plan 5 10 = Inr (replicate 10 (0, - 1)) \<and> \<not> isl (plan 5 10)"
  by (simp add: plan_def chunk_ranges_def upt_conv_Cons eval_nat_numeral)

text \<open>
  Claim C4, amended. Whenever num_chunks exceeds total_size (with total_size \<ge> 0, so that
  the chunk size is 0), planning does not fail: it returns num_chunks ranges, each of them
  the empty range (0, -1).
\<close>

theorem more_chunks_than_bytes_plan:
  "0 \<le> total_size \<Longrightarrow> total_size < num_threads \<Longrightarrow>
     plan total_size num_threads = Inr (replicate (nat num_threads) (0, - 1))"
  by (auto simp: plan_def chunk_ranges_def map_replicate_const min_def intro!: replicate_eqI)

theorem more_chunks_than_bytes_plan_witness:
  "(0::int) \<le> 5 \<and> (5::int) < 10 \<and> plan 5 10 = Inr (replicate (nat 10) (0, - 1))"
  using more_chunks_than_bytes_plan [of 5 10]
  by simp

text \<open>
  Claim C9. The scratch file of chunk \<open>i\<close> is named \<open>save_path\<close>, then \<open>.part\<close>, then
  \<open>i\<close> in decimal: a fetch that succeeds returns this name and has created a file of
  this name, a fetch whose request got a response creates a file of this name wherever one
  can be opened, and no file of another name is touched. The name depends on \<open>save_path\<close>
  and \<open>i\<close> only, and two indices have the same name only when they are equal.
\<close>

theorem scratch_file_name:
  "temp_file_path save_path i = save_path @ ''.part'' @ str_nat i \<and>
   (temp_file_path save_path i = temp_file_path save_path j \<longleftrightarrow> i = j) \<and>
   (\<forall>r. fst (download_chunk srv url save_path s e i w) = Inr r \<longrightarrow>
      r = temp_file_path save_path i \<and>
      files (snd (download_chunk srv url save_path s e i w)) r \<noteq> None) \<and>
   (\<forall>resp. http_get srv url s e = Inr resp \<and> writable w (temp_file_path save_path i) \<longrightarrow>
      files (snd (download_chunk srv url save_path s e i w)) (temp_file_path save_path i) \<noteq> None) \<and>
   (\<forall>p. p \<noteq> temp_file_path save_path i \<longrightarrow>
      files (snd (download_chunk srv url save_path s e i w)) p = files w p)"
  using download_chunk_path [of srv url save_path s e i w]
    download_chunk_file_exists [of srv url s e _ w save_path i]
    download_chunk_files_other [of _ save_path i srv url s e w]
  by (simp add: temp_file_path_inj) (simp add: temp_file_path_def)

theorem scratch_file_name_witness:
  "temp_file_path ''out'' 12 = ''out.part12'' \<and>
   temp_file_path ''out'' 12 \<noteq> temp_file_path ''out'' 3 \<and>
   fst (download_chunk (exact_server [1, 2, 3]) ''http://h/f'' ''out'' 0 2 12
         (empty_world\<lparr>bars := replicate 13 0\<rparr>)) = Inr (temp_file_path ''out'' 12) \<and>
   files (snd (download_chunk (exact_server [1, 2, 3]) ''http://h/f'' ''out'' 0 2 12
         (empty_world\<lparr>bars := replicate 13 0\<rparr>))) ''out.part12'' \<noteq> None \<and>
   files (snd (download_chunk (exact_server [1, 2, 3]) ''http://h/f'' ''out'' 0 2 12
         (empty_world\<lparr>bars := replicate 13 0\<rparr>))) ''out'' = None"
proof -
  have r: "fst (download_chunk (exact_server [1, 2, 3]) ''http://h/f'' ''out'' 0 2 12
         (empty_world\<lparr>bars := replicate 13 0\<rparr>)) = Inr ''out.part12''"
    by code_simp
  have n: "temp_file_path ''out'' 12 = ''out.part12''"
    by code_simp
  have g: "http_get (exact_server [1, 2, 3]) ''http://h/f'' 0 2
     = Inr \<lparr>status = 206, blocks = [[1, 2, 3]], stream_error = None\<rparr> \<and>
     writable (empty_world\<lparr>bars := replicate 13 0\<rparr>) (temp_file_path ''out'' 12)"
    by (simp add: exact_server_def empty_world_def)
  have d: "(12::nat) \<noteq> 3"
    by simp
  have o: "''out'' \<noteq> temp_file_path ''out'' 12"
    by (simp add: n)
  note T = scratch_file_name [of "''out''" 12 3 "exact_server [1, 2, 3]" "''http://h/f''" 0 2
        "empty_world\<lparr>bars := replicate 13 0\<rparr>"]
  from T [THEN conjunct2, THEN conjunct1] d
  have c2: "temp_file_path ''out'' 12 \<noteq> temp_file_path ''out'' 3"
    by simp
  from T [THEN conjunct2, THEN conjunct2, THEN conjunct1] r
  have c3: "fst (download_chunk (exact_server [1, 2, 3]) ''http://h/f'' ''out'' 0 2 12
         (empty_world\<lparr>bars := replicate 13 0\<rparr>)) = Inr (temp_file_path ''out'' 12)"
    by simp
  from T [THEN conjunct2, THEN conjunct2, THEN conjunct2, THEN conjunct1, rule_format, OF g]
  have c4: "files (snd (download_chunk (exact_server [1, 2, 3]) ''http://h/f'' ''out'' 0 2 12
         (empty_world\<lparr>bars := replicate 13 0\<rparr>))) ''out.part12'' \<noteq> None"
    by (simp add: n)
  from T [THEN conjunct2, THEN conjunct2, THEN conjunct2, THEN conjunct2, rule_format, OF o]
  have c5: "files (snd (download_chunk (exact_server [1, 2, 3]) ''http://h/f'' ''out'' 0 2 12
         (empty_world\<lparr>bars := replicate 13 0\<rparr>))) ''out'' = None"
    by (simp add: empty_world_def)
  from n c2 c3 c4 c5 show ?thesis
    by (intro conjI)
qed

text \<open>
  Claim C6 as stated fails: a response with status 404 and a body of three bytes, for the
  ten bytes 0..9, makes the fetch return its scratch file name as a success, with the three
  bytes in the scratch file.
\<close>

theorem wrong_status_short_body_succeeds:
  "http_get not_found_server ''http://h/f'' 0 9
     = Inr \<lparr>status = 404, blocks = [[1, 2], [], [3]], stream_error = None\<rparr> \<and>
   download_chunk not_found_server ''http://h/f'' ''out'' 0 9 0
       \<lparr>files = Map.empty, writable = (\<lambda>_. True), sent = [], bars = [0]\<rparr>
     = (Inr ''out.part0'',
        \<lparr>files = [''out.part0'' \<mapsto> [1, 2, 3]], writable = (\<lambda>_. True),
           sent = [Get ''http://h/f'' 0 9], bars = [3]\<rparr>)"
proof -
  have n: "temp_file_path ''out'' 0 = ''out.part0''"
    by code_simp
  show ?thesis
    by (simp add: not_found_server_def download_chunk_def n Let_def append_file_def)
qed

text \<open>
  Claim C6, amended. A chunk fetch sends exactly one GET and does not retry. It checks
  neither the response status nor the body length. Writes to an opened scratch file being
  taken to succeed, it fails in these cases only: with the error of the request when the
  request raises; with the OSError of \<open>open\<close> when the request got a response but the
  scratch file cannot be opened for writing; with IndexError when the thread index is not
  that of a progress bar and the body has a non-empty block; with the error of the body
  stream when the stream raises. In every other case it returns the scratch file name as a
  success, whatever the status and however short the body. When the scratch file can be
  opened and the thread index is that of a progress bar, the scratch file holds the bytes
  received; when the request raises or the scratch file cannot be opened, no file is
  created or changed.
\<close>

theorem chunk_fetch_outcome:
  "sent (snd (download_chunk srv url save_path s e i w)) = sent w @ [Get url s e] \<and>
   fst (download_chunk srv url save_path s e i w) =
     (case http_get srv url s e of
        Inl err \<Rightarrow> Inl err
      | Inr resp \<Rightarrow>
          if \<not> writable w (temp_file_path save_path i) then Inl OSError
          else if (\<exists>b \<in> set (blocks resp). b \<noteq> []) \<and> \<not> i < length (bars w)
            then Inl IndexError
          else (case stream_error resp of
                  Some err \<Rightarrow> Inl err
                | None \<Rightarrow> Inr (temp_file_path save_path i))) \<and>
   (\<forall>resp. http_get srv url s e = Inr resp \<and> writable w (temp_file_path save_path i) \<and>
        i < length (bars w) \<longrightarrow>
      files (snd (download_chunk srv url save_path s e i w)) (temp_file_path save_path i) =
        Some (concat (blocks resp))) \<and>
   ((\<exists>err. http_get srv url s e = Inl err) \<or> \<not> writable w (temp_file_path save_path i) \<longrightarrow>
      files (snd (download_chunk srv url save_path s e i w)) = files w)"
proof (intro conjI)
  show "sent (snd (download_chunk srv url save_path s e i w)) = sent w @ [Get url s e]"
    by (rule download_chunk_sent)
  show "fst (download_chunk srv url save_path s e i w) =
     (case http_get srv url s e of
        Inl err \<Rightarrow> Inl err
      | Inr resp \<Rightarrow>
          if \<not> writable w (temp_file_path save_path i) then Inl OSError
          else if (\<exists>b \<in> set (blocks resp). b \<noteq> []) \<and> \<not> i < length (bars w)
            then Inl IndexError
          else (case stream_error resp of
                  Some err \<Rightarrow> Inl err
                | None \<Rightarrow> Inr (temp_file_path save_path i)))"
  proof (cases "http_get srv url s e")
    case (Inl err)
    then show ?thesis
      by (simp add: download_chunk_Inl)
  next
    case (Inr resp)
    show ?thesis
    proof (cases "writable w (temp_file_path save_path i)")
      case False
      with Inr show ?thesis
        by (simp add: download_chunk_unwritable)
    next
      case wr: True
      show ?thesis
      proof (cases "i < length (bars w)")
        case True
        with Inr wr show ?thesis
          by (simp add: download_chunk_response(1))
      next
        case False
        with Inr wr show ?thesis
          by (simp add: download_chunk_no_bar)
      qed
    qed
  qed
  show "\<forall>resp. http_get srv url s e = Inr resp \<and> writable w (temp_file_path save_path i) \<and>
        i < length (bars w) \<longrightarrow>
      files (snd (download_chunk srv url save_path s e i w)) (temp_file_path save_path i) =
        Some (concat (blocks resp))"
    by (simp add: download_chunk_response(2))
  show "(\<exists>err. http_get srv url s e = Inl err) \<or> \<not> writable w (temp_file_path save_path i) \<longrightarrow>
      files (snd (download_chunk srv url save_path s e i w)) = files w"
    by (cases "http_get srv url s e")
       (auto simp: download_chunk_Inl download_chunk_unwritable)
qed

theorem chunk_fetch_outcome_witness:
  "fst (download_chunk not_found_server ''http://h/f'' ''out'' 0 9 0
         (empty_world\<lparr>bars := [0]\<rparr>)) = Inr (temp_file_path ''out'' 0) \<and>
   files (snd (download_chunk not_found_server ''http://h/f'' ''out'' 0 9 0
         (empty_world\<lparr>bars := [0]\<rparr>))) (temp_file_path ''out'' 0) = Some [1, 2, 3] \<and>
   fst (download_chunk not_found_server ''http://h/f'' ''out'' 0 9 0 empty_world)
     = Inl IndexError \<and>
   fst (download_chunk not_found_server ''http://h/f'' ''out'' 0 9 0 read_only_world)
     = Inl OSError \<and>
   files (snd (download_chunk not_found_server ''http://h/f'' ''out'' 0 9 0 read_only_world))
     = Map.empty \<and>
   fst (download_chunk no_length_server ''http://h/f'' ''out'' 0 9 0 empty_world)
     = Inl RequestException"
proof -
  let ?w = "empty_world\<lparr>bars := [0]\<rparr>"
  have g: "http_get not_found_server ''http://h/f'' 0 9
             = Inr \<lparr>status = 404, blocks = [[1, 2], [], [3]], stream_error = None\<rparr>"
    by (simp add: not_found_server_def)
  have gw: "http_get not_found_server ''http://h/f'' 0 9
             = Inr \<lparr>status = 404, blocks = [[1, 2], [], [3]], stream_error = None\<rparr> \<and>
            writable ?w (temp_file_path ''out'' 0) \<and> 0 < length (bars ?w)"
    by (simp add: not_found_server_def empty_world_def)
  have h: "http_get no_length_server ''http://h/f'' 0 9 = Inl RequestException"
    by (simp add: no_length_server_def)
  have ro: "(\<exists>err. http_get not_found_server ''http://h/f'' 0 9 = Inl err) \<or>
            \<not> writable read_only_world (temp_file_path ''out'' 0)"
    by (simp add: read_only_world_def)
  note A = chunk_fetch_outcome [of not_found_server "''http://h/f''" "''out''" 0 9 0 ?w]
  note B = chunk_fetch_outcome [of not_found_server "''http://h/f''" "''out''" 0 9 0 empty_world]
  note C = chunk_fetch_outcome [of not_found_server "''http://h/f''" "''out''" 0 9 0 read_only_world]
  note D = chunk_fetch_outcome [of no_length_server "''http://h/f''" "''out''" 0 9 0 empty_world]
  from A [THEN conjunct2, THEN conjunct1]
  have a1: "fst (download_chunk not_found_server ''http://h/f'' ''out'' 0 9 0 ?w)
             = Inr (temp_file_path ''out'' 0)"
    by (simp add: g empty_world_def)
  from A [THEN conjunct2, THEN conjunct2, THEN conjunct1, rule_format, OF gw]
  have a2: "files (snd (download_chunk not_found_server ''http://h/f'' ''out'' 0 9 0 ?w))
             (temp_file_path ''out'' 0) = Some [1, 2, 3]"
    by simp
  from B [THEN conjunct2, THEN conjunct1]
  have b: "fst (download_chunk not_found_server ''http://h/f'' ''out'' 0 9 0 empty_world)
             = Inl IndexError"
    by (simp add: g empty_world_def)
  from C [THEN conjunct2, THEN conjunct1]
  have c1: "fst (download_chunk not_found_server ''http://h/f'' ''out'' 0 9 0 read_only_world)
             = Inl OSError"
    by (simp add: g read_only_world_def)
  from C [THEN conjunct2, THEN conjunct2, THEN conjunct2, rule_format, OF ro]
  have c2: "files (snd (download_chunk not_found_server ''http://h/f'' ''out'' 0 9 0
              read_only_world)) = Map.empty"
    by (simp add: read_only_world_def)
  from D [THEN conjunct2, THEN conjunct1]
  have d: "fst (download_chunk no_length_server ''http://h/f'' ''out'' 0 9 0 empty_world)
             = Inl RequestException"
    by (simp add: h)
  from a1 a2 b c1 c2 d show ?thesis
    by (intro conjI)
qed

text \<open>
  Claim C3, on a file of the two bytes 10 and 20 fetched in two chunks. When chunk 0
  completes first the output is [10, 20]; when chunk 1 completes first the output is
  [20, 10]: the scratch files are merged in completion order, not in index order.
\<close>

theorem completion_order_reaches_output:
  "files (snd (download_file_in_chunks (exact_server [10, 20]) [0, 1] ''http://h/f'' ''out'' 2
       empty_world)) ''out'' = Some [10, 20] \<and>
   files (snd (download_file_in_chunks (exact_server [10, 20]) [1, 0] ''http://h/f'' ''out'' 2
       empty_world)) ''out'' = Some [20, 10]"
  by code_simp

text \<open>
  Claim C5 as stated fails: when the fetch of chunk 2 of 5 raises, the download raises, no
  file is at the output path, but the scratch files of the chunks 0, 1, 3 and 4 are still
  there.
\<close>

theorem failed_fetch_keeps_scratch_files:
  "fst (download_file_in_chunks third_chunk_fails_server [0, 1, 2, 3, 4] ''http://h/f'' ''out'' 5
     empty_world) = Inl RequestException \<and>
   map (files (snd (download_file_in_chunks third_chunk_fails_server [0, 1, 2, 3, 4]
     ''http://h/f'' ''out'' 5 empty_world)))
     [''out'', ''out.part0'', ''out.part1'', ''out.part2'', ''out.part3'', ''out.part4'']
   = [None, Some [0], Some [1], None, Some [3], Some [4]]"
  by code_simp

text \<open>
  Claim C5, amended. If the fetch of any chunk fails (its request raises, its scratch file
  cannot be opened for writing, or its body stream raises), the download fails without
  merging: the output path is left as it was before the call, so no final output is
  created. Nothing is cleaned up: the scratch file of every chunk whose request got a
  response and whose scratch file could be opened is still there, holding the bytes
  received (writes to an opened scratch file being taken to succeed). A chunk whose request
  raised or whose scratch file could not be opened leaves the path of its scratch file as
  it was.
\<close>

theorem failed_fetch_no_cleanup:
  assumes "0 < num_threads"
    and "http_head srv url = Inr (Length total_size)"
    and "plan total_size num_threads = Inr ranges"
    and "distinct order" and "set order = {..<nat num_threads}"
    and "k < nat num_threads"
    and "isl (chunk_result srv (writable w) url save_path (k, ranges ! k))"
  shows "(\<exists>e. fst (download_file_in_chunks srv order url save_path num_threads w) = Inl e) \<and>
     files (snd (download_file_in_chunks srv order url save_path num_threads w)) save_path
       = files w save_path \<and>
     (\<forall>j bs. j < nat num_threads \<and>
        chunk_body srv (writable w) url save_path (j, ranges ! j) = Some bs \<longrightarrow>
        files (snd (download_file_in_chunks srv order url save_path num_threads w))
          (temp_file_path save_path j) = Some bs) \<and>
     (\<forall>j. j < nat num_threads \<and>
        chunk_body srv (writable w) url save_path (j, ranges ! j) = None \<longrightarrow>
        files (snd (download_file_in_chunks srv order url save_path num_threads w))
          (temp_file_path save_path j) = files w (temp_file_path save_path j))"
proof -
  note r = plan_chunk_ranges [OF assms(1,3)]
  from assms(7) have bad:
    "isl (chunk_result srv (writable w) url save_path
           (k, chunk_ranges total_size (total_size div num_threads) num_threads ! k))"
    by (simp only: r)
  note F = download_some_fail [OF assms(1,2,5,6) bad]
  have sub: "set order \<subseteq> {..<nat num_threads}"
    using assms(5) by simp
  have out: "files (snd (download_file_in_chunks srv order url save_path num_threads w)) save_path
               = files w save_path"
    unfolding F(2)
    by (rule run_all_files_other) (simp add: temp_file_path_neq [symmetric])
  have scratch: "files (snd (download_file_in_chunks srv order url save_path num_threads w))
          (temp_file_path save_path j) = Some bs"
    if "j < nat num_threads"
      "chunk_body srv (writable w) url save_path (j, ranges ! j) = Some bs" for j bs
  proof -
    from that(1) assms(5) have j: "j \<in> set order"
      by simp
    from that(2) have b: "chunk_body srv (writable w) url save_path
        (j, chunk_ranges total_size (total_size div num_threads) num_threads ! j) = Some bs"
      by (simp only: r)
    show ?thesis
      unfolding F(2) by (rule run_all_files [OF assms(4) sub j b])
  qed
  have none: "files (snd (download_file_in_chunks srv order url save_path num_threads w))
          (temp_file_path save_path j) = files w (temp_file_path save_path j)"
    if "j < nat num_threads"
      "chunk_body srv (writable w) url save_path (j, ranges ! j) = None" for j
  proof -
    from that(1) assms(5) have j: "j \<in> set order"
      by simp
    from that(2) have b: "chunk_body srv (writable w) url save_path
        (j, chunk_ranges total_size (total_size div num_threads) num_threads ! j) = None"
      by (simp only: r)
    show ?thesis
      unfolding F(2) by (rule run_all_no_file [OF assms(4) sub j b])
  qed
  from F(1) out scratch none show ?thesis
    by blast
qed

theorem failed_fetch_no_cleanup_witness:
  "(\<exists>e. fst (download_file_in_chunks third_chunk_fails_server [0, 1, 2, 3, 4] ''http://h/f''
           ''out'' 5 empty_world) = Inl e) \<and>
   files (snd (download_file_in_chunks third_chunk_fails_server [0, 1, 2, 3, 4] ''http://h/f''
           ''out'' 5 empty_world)) ''out'' = None \<and>
   files (snd (download_file_in_chunks third_chunk_fails_server [0, 1, 2, 3, 4] ''http://h/f''
           ''out'' 5 empty_world)) (temp_file_path ''out'' 4) = Some [4] \<and>
   files (snd (download_file_in_chunks third_chunk_fails_server [0, 1, 2, 3, 4] ''http://h/f''
           ''out'' 5 empty_world)) (temp_file_path ''out'' 2) = None \<and>
   (\<exists>e. fst (download_file_in_chunks third_chunk_fails_server [0, 1, 2, 3, 4] ''http://h/f''
           ''out'' 5 read_only_world) = Inl e) \<and>
   files (snd (download_file_in_chunks third_chunk_fails_server [0, 1, 2, 3, 4] ''http://h/f''
           ''out'' 5 read_only_world)) (temp_file_path ''out'' 4) = None"
proof -
  let ?ranges = "[(0, 0), (1, 1), (2, 2), (3, 3), (4::int, 4::int)]"
  have h1: "(0::int) < 5"
    by simp
  have h2: "http_head third_chunk_fails_server ''http://h/f'' = Inr (Length 5)"
    by (simp add: third_chunk_fails_server_def)
  have h3: "plan 5 5 = Inr ?ranges"
    by (simp add: plan_def chunk_ranges_def upt_conv_Cons)
  have h4: "distinct [0, 1, 2, 3, 4::nat]"
    by simp
  have h5: "set [0, 1, 2, 3, 4::nat] = {..<nat 5}"
    by (auto simp: eval_nat_numeral less_Suc_eq)
  have h6: "(2::nat) < nat 5" and h6': "(4::nat) < nat 5"
    by simp_all
  have h7: "isl (chunk_result third_chunk_fails_server (writable empty_world) ''http://h/f''
                  ''out'' (2, ?ranges ! 2))"
    by (simp add: chunk_result_def third_chunk_fails_server_def)
  have h7': "isl (chunk_result third_chunk_fails_server (writable read_only_world) ''http://h/f''
                  ''out'' (4, ?ranges ! 4))"
    by (simp add: chunk_result_def third_chunk_fails_server_def read_only_world_def)
  have b4: "(4::nat) < nat 5 \<and>
           chunk_body third_chunk_fails_server (writable empty_world) ''http://h/f'' ''out''
             (4, ?ranges ! 4) = Some [4]"
    by (simp add: chunk_body_def third_chunk_fails_server_def empty_world_def)
  have b2: "(2::nat) < nat 5 \<and>
           chunk_body third_chunk_fails_server (writable empty_world) ''http://h/f'' ''out''
             (2, ?ranges ! 2) = None"
    by (simp add: chunk_body_def third_chunk_fails_server_def)
  have r4: "(4::nat) < nat 5 \<and>
           chunk_body third_chunk_fails_server (writable read_only_world) ''http://h/f'' ''out''
             (4, ?ranges ! 4) = None"
    by (simp add: chunk_body_def third_chunk_fails_server_def read_only_world_def)
  note T = failed_fetch_no_cleanup [OF h1 h2 h3 h4 h5 h6 h7]
  note U = failed_fetch_no_cleanup [OF h1 h2 h3 h4 h5 h6' h7']
  from T have t1: "\<exists>e. fst (download_file_in_chunks third_chunk_fails_server [0, 1, 2, 3, 4]
           ''http://h/f'' ''out'' 5 empty_world) = Inl e"
    by (rule conjunct1)
  from T [THEN conjunct2, THEN conjunct1]
  have t2: "files (snd (download_file_in_chunks third_chunk_fails_server [0, 1, 2, 3, 4]
           ''http://h/f'' ''out'' 5 empty_world)) ''out'' = None"
    by (simp add: empty_world_def)
  from T [THEN conjunct2, THEN conjunct2, THEN conjunct1, rule_format, OF b4]
  have t3: "files (snd (download_file_in_chunks third_chunk_fails_server [0, 1, 2, 3, 4]
           ''http://h/f'' ''out'' 5 empty_world)) (temp_file_path ''out'' 4) = Some [4]" .
  from T [THEN conjunct2, THEN conjunct2, THEN conjunct2, rule_format, OF b2]
  have t4: "files (snd (download_file_in_chunks third_chunk_fails_server [0, 1, 2, 3, 4]
           ''http://h/f'' ''out'' 5 empty_world)) (temp_file_path ''out'' 2) = None"
    by (simp add: empty_world_def)
  from U have u1: "\<exists>e. fst (download_file_in_chunks third_chunk_fails_server [0, 1, 2, 3, 4]
           ''http://h/f'' ''out'' 5 read_only_world) = Inl e"
    by (rule conjunct1)
  from U [THEN conjunct2, THEN conjunct2, THEN conjunct2, rule_format, OF r4]
  have u2: "files (snd (download_file_in_chunks third_chunk_fails_server [0, 1, 2, 3, 4]
           ''http://h/f'' ''out'' 5 read_only_world)) (temp_file_path ''out'' 4) = None"
    by (simp add: read_only_world_def)
  from t1 t2 t3 t4 u1 u2 show ?thesis
    by (intro conjI)
qed

text \<open>
  Claim C10. For num_threads \<ge> 1 and a chunk size total_size // num_threads \<ge> 1, the plan
  has num_threads ranges, the first starts at 0, every other starts one byte after the end
  of its predecessor, and two different ranges share no byte. The last range ends at
  num_threads * (total_size // num_threads) - 1, so the ranges cover exactly the bytes up
  to there: the last total_size mod num_threads bytes of the file are in no range. Against
  a server that serves exactly the requested bytes of a file of total_size bytes, and where
  the output file and the scratch files can be opened for writing, the download succeeds
  for every completion order and writes total_size minus total_size mod num_threads bytes;
  when the chunks complete in index order the output is the file without its last
  total_size mod num_threads bytes.
\<close>

theorem remainder_bytes_not_fetched:
  assumes "1 \<le> num_threads" and "1 \<le> total_size div num_threads"
  shows "\<exists>ranges.
     plan total_size num_threads = Inr ranges \<and>
     length ranges = nat num_threads \<and>
     fst (ranges ! 0) = 0 \<and>
     (\<forall>i. Suc i < nat num_threads \<longrightarrow> fst (ranges ! Suc i) = snd (ranges ! i) + 1) \<and>
     (\<forall>i j. i < j \<and> j < nat num_threads \<longrightarrow>
        {fst (ranges ! i) .. snd (ranges ! i)} \<inter> {fst (ranges ! j) .. snd (ranges ! j)} = {}) \<and>
     snd (last ranges) = num_threads * (total_size div num_threads) - 1 \<and>
     covered ranges = {0 .. num_threads * (total_size div num_threads) - 1} \<and>
     {0 .. total_size - 1} - covered ranges
       = {total_size - total_size mod num_threads .. total_size - 1} \<and>
     card ({0 .. total_size - 1} - covered ranges) = nat (total_size mod num_threads) \<and>
     (\<forall>data order url save_path w.
        int (length data) = total_size \<and> distinct order \<and> set order = {..<nat num_threads} \<and>
        writable w save_path \<and> (\<forall>k < nat num_threads. writable w (temp_file_path save_path k)) \<longrightarrow>
        fst (download_file_in_chunks (exact_server data) order url save_path num_threads w)
          = Inr () \<and>
        (\<exists>out. files (snd (download_file_in_chunks (exact_server data) order url save_path
                    num_threads w)) save_path = Some out \<and>
               int (length out) = total_size - total_size mod num_threads)) \<and>
     (\<forall>data url save_path w.
        int (length data) = total_size \<and>
        writable w save_path \<and> (\<forall>k < nat num_threads. writable w (temp_file_path save_path k)) \<longrightarrow>
        files (snd (download_file_in_chunks (exact_server data) [0..<nat num_threads] url
                 save_path num_threads w)) save_path
          = Some (take (nat (total_size - total_size mod num_threads)) data))"
proof -
  let ?c = "total_size div num_threads"
  define ranges where "ranges = chunk_ranges total_size ?c num_threads"
  have n: "0 < num_threads" and c0: "0 \<le> ?c"
    using assms by simp_all
  note c = assms(2)
  have nth: "ranges ! i = (int i * ?c, (int i + 1) * ?c - 1)" if "i < nat num_threads" for i
    unfolding ranges_def by (rule chunk_ranges_nth [OF n that c0])
  have p: "plan total_size num_threads = Inr ranges"
    using n by (simp add: plan_def ranges_def)
  have l: "length ranges = nat num_threads"
    by (simp add: ranges_def length_chunk_ranges)
  have first: "fst (ranges ! 0) = 0"
    using n by (simp add: nth)
  have succ: "\<forall>i. Suc i < nat num_threads \<longrightarrow> fst (ranges ! Suc i) = snd (ranges ! i) + 1"
    by (simp add: nth algebra_simps)
  have disj: "\<forall>i j. i < j \<and> j < nat num_threads \<longrightarrow>
        {fst (ranges ! i) .. snd (ranges ! i)} \<inter> {fst (ranges ! j) .. snd (ranges ! j)} = {}"
  proof (intro allI impI)
    fix i j
    assume ij: "i < j \<and> j < nat num_threads"
    then have "(int i + 1) * ?c \<le> int j * ?c"
      using c0 by (intro mult_right_mono) simp_all
    with ij show "{fst (ranges ! i) .. snd (ranges ! i)} \<inter> {fst (ranges ! j) .. snd (ranges ! j)} = {}"
      by (auto simp: nth)
  qed
  have lst: "snd (last ranges) = num_threads * ?c - 1"
  proof -
    from n l have ne: "ranges \<noteq> []"
      by auto
    have "last ranges = ranges ! (nat num_threads - 1)"
      using last_conv_nth [OF ne] by (simp add: l)
    also have "\<dots> = (int (nat num_threads - 1) * ?c, (int (nat num_threads - 1) + 1) * ?c - 1)"
      using n by (intro nth) simp
    finally show ?thesis
      using n by simp
  qed
  have cov: "covered ranges = {0 .. num_threads * ?c - 1}"
    unfolding ranges_def by (rule covered_chunk_ranges [OF n c])
  have unc: "{0 .. total_size - 1} - covered ranges
       = {total_size - total_size mod num_threads .. total_size - 1}"
    unfolding ranges_def by (rule uncovered_chunk_ranges(1) [OF n c])
  have crd: "card ({0 .. total_size - 1} - covered ranges) = nat (total_size mod num_threads)"
    unfolding ranges_def by (rule uncovered_chunk_ranges(2) [OF n c])
  have any: "\<forall>data order url save_path w.
        int (length data) = total_size \<and> distinct order \<and> set order = {..<nat num_threads} \<and>
        writable w save_path \<and> (\<forall>k < nat num_threads. writable w (temp_file_path save_path k)) \<longrightarrow>
        fst (download_file_in_chunks (exact_server data) order url save_path num_threads w)
          = Inr () \<and>
        (\<exists>out. files (snd (download_file_in_chunks (exact_server data) order url save_path
                    num_threads w)) save_path = Some out \<and>
               int (length out) = total_size - total_size mod num_threads)"
    using exact_download(1) [OF n c] exact_download_length [OF n c] by blast
  have ord: "\<forall>data url save_path w.
        int (length data) = total_size \<and>
        writable w save_path \<and> (\<forall>k < nat num_threads. writable w (temp_file_path save_path k)) \<longrightarrow>
        files (snd (download_file_in_chunks (exact_server data) [0..<nat num_threads] url
                 save_path num_threads w)) save_path
          = Some (take (nat (total_size - total_size mod num_threads)) data)"
    using exact_download_in_order [OF n c] by blast
  from p l first succ disj lst cov unc crd any ord show ?thesis
    by (intro exI [of _ ranges] conjI)
qed

theorem remainder_bytes_not_fetched_witness:
  "(1::int) \<le> 3 \<and> (1::int) \<le> 10 div 3 \<and>
   plan 10 3 = Inr [(0, 2), (3, 5), (6, 8)] \<and>
   covered [(0, 2), (3, 5), (6, 8)] = {0 .. 3 * (10 div 3) - 1} \<and>
   card ({0 .. 10 - 1} - covered [(0, 2), (3, 5), (6, 8)]) = nat (10 mod 3) \<and>
   files (snd (download_file_in_chunks (exact_server [0, 1, 2, 3, 4, 5, 6, 7, 8, 9]) [0, 1, 2]
            ''http://h/f'' ''out'' 3 empty_world)) ''out''
     = Some [0, 1, 2, 3, 4, 5, 6, 7, 8]"
proof -
  have h1: "(1::int) \<le> 3" and h2: "(1::int) \<le> 10 div 3"
    by simp_all
  have p: "plan 10 3 = Inr [(0, 2), (3, 5), (6, 8)]"
    by (simp add: plan_def chunk_ranges_def upt_conv_Cons)
  have len: "int (length [0, 1, 2, 3, 4, 5, 6, 7, 8, 9 :: byte]) = 10 \<and>
      writable empty_world ''out'' \<and>
      (\<forall>k < nat 3. writable empty_world (temp_file_path ''out'' k))"
    by (simp add: empty_world_def)
  have ord: "[0..<nat 3] = [0, 1, 2]"
    by (simp add: upt_conv_Cons)
  have tk: "take (nat (10 - 10 mod 3)) [0, 1, 2, 3, 4, 5, 6, 7, 8, 9 :: byte]
              = [0, 1, 2, 3, 4, 5, 6, 7, 8]"
    by simp
  from remainder_bytes_not_fetched [OF h1 h2] obtain ranges where
    r: "plan 10 3 = Inr ranges"
    and cov: "covered ranges = {0 .. 3 * (10 div 3) - 1}"
    and crd: "card ({0 .. 10 - 1} - covered ranges) = nat (10 mod 3)"
    and out: "\<forall>data url save_path w.
        int (length data) = 10 \<and>
        writable w save_path \<and> (\<forall>k < nat 3. writable w (temp_file_path save_path k)) \<longrightarrow>
        files (snd (download_file_in_chunks (exact_server data) [0..<nat 3] url
                 save_path 3 w)) save_path
          = Some (take (nat (10 - 10 mod 3)) data)"
    by blast
  from r p have ranges: "ranges = [(0, 2), (3, 5), (6, 8)]"
    by simp
  from out [rule_format, OF len, of "''http://h/f''"]
  have o: "files (snd (download_file_in_chunks (exact_server [0, 1, 2, 3, 4, 5, 6, 7, 8, 9])
            [0, 1, 2] ''http://h/f'' ''out'' 3 empty_world)) ''out''
     = Some [0, 1, 2, 3, 4, 5, 6, 7, 8]"
    unfolding ord tk .
  from h1 h2 p cov crd o show ?thesis
    unfolding ranges by (intro conjI)
qed

end
